theory Spec2Isabelle
  imports Main "HOL-Library.Word"
begin

unbundle bit_operations_syntax

section \<open>Data model\<close>

text \<open>
  The vault of \<^verbatim>\<open>src/safe\<close>: \<^verbatim>\<open>database.py\<close> (class \<^verbatim>\<open>Database\<close>),
  \<^verbatim>\<open>auth.py\<close> (\<^verbatim>\<open>create_pswd\<close>) and \<^verbatim>\<open>main.py\<close>
  (\<^verbatim>\<open>change_password_command\<close>).

  Python \<^verbatim>\<open>bytes\<close> are lists of 8-bit words, Python \<^verbatim>\<open>str\<close> is \<open>string\<close>.
  A value of type \<^verbatim>\<open>Any\<close> that reaches \<^verbatim>\<open>json.dumps\<close> or comes out of
  \<^verbatim>\<open>json.loads\<close> is a \<open>pyval\<close>; a dict keeps its insertion order, so it is an
  association list. A float is carried by its literal.
\<close>

type_synonym byte = "8 word"
type_synonym bytes = "byte list"

datatype pyval =
    PNone
  | PBool bool
  | PInt int
  | PFloat string
  | PStr string
  | PList "pyval list"
  | PDict "(string \<times> pyval) list"

text \<open>The \<^verbatim>\<open>Dict[str, str]\<close> of \<^verbatim>\<open>insert\<close> and \<^verbatim>\<open>update\<close>, as the value handed
  to \<^verbatim>\<open>_encrypt\<close>.\<close>

type_synonym items = "(string \<times> string) list"

definition items_val :: "items \<Rightarrow> pyval" where
  "items_val m = PDict (map (\<lambda>(k, v). (k, PStr v)) m)"

text \<open>
  The exceptions that leave the functions modelled here. None is raised by the
  repository's own code: \<^verbatim>\<open>ValueError\<close> comes from pycryptodome (with its message),
  \<^verbatim>\<open>UnicodeDecodeError\<close> from \<^verbatim>\<open>bytes.decode\<close>, \<^verbatim>\<open>JSONDecodeError\<close> from
  \<^verbatim>\<open>json.loads\<close> (both are subclasses of \<^verbatim>\<open>ValueError\<close>), and
  \<^verbatim>\<open>IntegrityError\<close> from SQLAlchemy when the \<^verbatim>\<open>unique=True\<close> constraint of
  \<^verbatim>\<open>Credential.name\<close> rejects a flush, and \<^verbatim>\<open>AttributeError\<close> from reading
  \<^verbatim>\<open>items_dict\<close> on an object where it was never set.
\<close>

datatype error =
    ValueError string
  | UnicodeDecodeError
  | JSONDecodeError
  | IntegrityError
  | AttributeError


text \<open>
  The row class \<^verbatim>\<open>Credential\<close>: the three mapped columns, and the attribute
  \<^verbatim>\<open>items_dict\<close> that \<^verbatim>\<open>get\<close> and \<^verbatim>\<open>get_all\<close> set on the loaded object
  (\<open>None\<close> while it is unset). Only the columns are persisted.
\<close>

record credential =
  c_id :: nat
  c_name :: string
  c_items :: bytes
  items_dict :: "pyval option"

definition persisted :: "credential \<Rightarrow> nat \<times> string \<times> bytes" where
  "persisted c = (c_id c, c_name c, c_items c)"

text \<open>
  The library functions the code calls, none of which is part of the repository:
  \<^verbatim>\<open>Crypto.Protocol.KDF.PBKDF2\<close> (password, salt, key length), the AES block
  permutation and its inverse under a key (\<^verbatim>\<open>Crypto.Cipher.AES\<close>), \<^verbatim>\<open>json.dumps\<close>,
  \<^verbatim>\<open>json.loads\<close>, \<^verbatim>\<open>str.encode\<close>, \<^verbatim>\<open>bytes.decode\<close> and \<^verbatim>\<open>bcrypt.hashpw\<close>.
  They are parameters of the model; what a theorem needs of them is a hypothesis.
\<close>

record lib =
  PBKDF2 :: "string \<Rightarrow> bytes \<Rightarrow> nat \<Rightarrow> bytes"
  AES_encrypt_block :: "bytes \<Rightarrow> bytes \<Rightarrow> bytes"
  AES_decrypt_block :: "bytes \<Rightarrow> bytes \<Rightarrow> bytes"
  json_dumps :: "pyval \<Rightarrow> string"
  json_loads :: "string \<Rightarrow> pyval option"
  encode :: "string \<Rightarrow> bytes"
  decode :: "bytes \<Rightarrow> string option"
  hashpw :: "bytes \<Rightarrow> bytes \<Rightarrow> bytes"

text \<open>
  The state the operations work on: the session password \<^verbatim>\<open>Database._pswd\<close>, the
  \<^verbatim>\<open>credentials\<close> table in row order, the contents of the password file
  (\<open>None\<close> while the file does not exist), and the stream of
  \<^verbatim>\<open>Crypto.Random.get_random_bytes\<close> with the position of its next unread byte.
\<close>

record vault =
  pswd :: string
  table :: "credential list"
  password_file :: "bytes option"
  rng :: "nat \<Rightarrow> byte"
  rpos :: nat

definition get_random_bytes :: "nat \<Rightarrow> vault \<Rightarrow> bytes \<times> vault" where
  "get_random_bytes n s = (map (rng s) [rpos s ..< rpos s + n], s\<lparr>rpos := rpos s + n\<rparr>)"

section \<open>Padding and CBC mode (pycryptodome)\<close>

text \<open>\<^verbatim>\<open>Crypto.Util.Padding.pad(data, block_size)\<close>, style pkcs7:
  \<^verbatim>\<open>padding_len = block_size - len(data) % block_size\<close>.\<close>

definition pad :: "bytes \<Rightarrow> nat \<Rightarrow> bytes" where
  "pad data_to_pad block_size =
     (let padding_len = block_size - length data_to_pad mod block_size
      in data_to_pad @ replicate padding_len (of_nat padding_len))"

text \<open>\<^verbatim>\<open>Crypto.Util.Padding.unpad(padded_data, block_size)\<close>, style pkcs7, with its
  four raises.\<close>

definition unpad :: "bytes \<Rightarrow> nat \<Rightarrow> error + bytes" where
  "unpad padded_data block_size =
     (let pdata_len = length padded_data in
      if pdata_len = 0 then Inl (ValueError ''Zero-length input cannot be unpadded'')
      else if pdata_len mod block_size \<noteq> 0 then Inl (ValueError ''Input data is not padded'')
      else
        (let padding_len = unat (last padded_data) in
         if padding_len < 1 \<or> padding_len > min block_size pdata_len
         then Inl (ValueError ''Padding is incorrect.'')
         else if drop (pdata_len - padding_len) padded_data
                 \<noteq> replicate padding_len (of_nat padding_len)
         then Inl (ValueError ''PKCS#7 padding is incorrect.'')
         else Inr (take (pdata_len - padding_len) padded_data)))"

definition xor_bytes :: "bytes \<Rightarrow> bytes \<Rightarrow> bytes" where
  "xor_bytes a b = map2 (XOR) a b"

text \<open>
  CBC over a block function, sixteen bytes at a time: each plaintext block is xored with
  the previous ciphertext block (the IV for the first) and then enciphered. The library
  raises on input that is not block aligned; \<^verbatim>\<open>_encrypt\<close> only passes padded input.
\<close>

fun cbc_encrypt :: "(bytes \<Rightarrow> bytes) \<Rightarrow> bytes \<Rightarrow> bytes \<Rightarrow> bytes" where
  "cbc_encrypt E prev data =
     (if data = [] then []
      else (let c = E (xor_bytes (take 16 data) prev)
            in c @ cbc_encrypt E c (drop 16 data)))"

fun cbc_decrypt_blocks :: "(bytes \<Rightarrow> bytes) \<Rightarrow> bytes \<Rightarrow> bytes \<Rightarrow> bytes" where
  "cbc_decrypt_blocks D prev data =
     (if data = [] then []
      else (let c = take 16 data
            in xor_bytes (D c) prev @ cbc_decrypt_blocks D c (drop 16 data)))"

definition cbc_decrypt :: "(bytes \<Rightarrow> bytes) \<Rightarrow> bytes \<Rightarrow> bytes \<Rightarrow> error + bytes" where
  "cbc_decrypt D iv data =
     (if length data mod 16 \<noteq> 0
      then Inl (ValueError ''Data must be padded to 16 byte boundary in CBC mode'')
      else Inr (cbc_decrypt_blocks D iv data))"

section \<open>Database: key derivation, encryption and decryption\<close>

text \<open>\<^verbatim>\<open>Database._derive_key\<close>: \<^verbatim>\<open>PBKDF2(self._pswd, salt, 32)\<close>. The library
  returns the 32 bytes it is asked for, a key \<^verbatim>\<open>AES.new\<close> accepts, so there is no branch
  for a rejected key.\<close>

definition derive_key :: "lib \<Rightarrow> vault \<Rightarrow> bytes \<Rightarrow> bytes" where
  "derive_key L s salt = PBKDF2 L (pswd s) salt 32"

text \<open>
  \<^verbatim>\<open>Database._encrypt\<close>. A value that is not a \<^verbatim>\<open>str\<close> is serialised first
  (\<open>serialize\<close> is that first statement); the salt is drawn, the key derived, and
  \<^verbatim>\<open>AES.new\<close> without an IV draws one from the same generator. Returns
  \<^verbatim>\<open>salt + cipher.iv + ciphertext\<close>.
\<close>

definition serialize :: "lib \<Rightarrow> pyval \<Rightarrow> string" where
  "serialize L data = (case data of PStr t \<Rightarrow> t | _ \<Rightarrow> json_dumps L data)"

definition encrypt :: "lib \<Rightarrow> vault \<Rightarrow> pyval \<Rightarrow> bytes \<times> vault" where
  "encrypt L s data =
     (let text = serialize L data;
          (salt, s1) = get_random_bytes 16 s;
          key = derive_key L s1 salt;
          (iv, s2) = get_random_bytes 16 s1;
          ciphertext = cbc_encrypt (AES_encrypt_block L key) iv (pad (encode L text) 16)
      in (salt @ iv @ ciphertext, s2))"

text \<open>
  \<^verbatim>\<open>Database._decrypt\<close>. \<^verbatim>\<open>AES.new\<close> raises on an IV that is not sixteen bytes
  long, \<^verbatim>\<open>cipher.decrypt\<close> on unaligned data, then \<^verbatim>\<open>unpad\<close>, \<^verbatim>\<open>decode\<close> and,
  under the flag, \<^verbatim>\<open>json.loads\<close> may raise. The state is only read.
\<close>

definition decrypt :: "lib \<Rightarrow> vault \<Rightarrow> bytes \<Rightarrow> bool \<Rightarrow> error + pyval" where
  "decrypt L s ciphertext json =
     (let salt = take 16 ciphertext;
          iv = take 16 (drop 16 ciphertext);
          key = derive_key L s salt
      in if length iv \<noteq> 16
         then Inl (ValueError ''Incorrect IV length (it must be 16 bytes long)'')
         else
           (case cbc_decrypt (AES_decrypt_block L key) iv (drop 32 ciphertext) of
              Inl e \<Rightarrow> Inl e
            | Inr padded \<Rightarrow>
                (case unpad padded 16 of
                   Inl e \<Rightarrow> Inl e
                 | Inr raw \<Rightarrow>
                     (case decode L raw of
                        None \<Rightarrow> Inl UnicodeDecodeError
                      | Some plaintext \<Rightarrow>
                          if json
                          then (case json_loads L plaintext of
                                  None \<Rightarrow> Inl JSONDecodeError
                                | Some v \<Rightarrow> Inr v)
                          else Inr (PStr plaintext)))))"

section \<open>Database: the store operations\<close>

text \<open>\<^verbatim>\<open>Database.count\<close> and \<^verbatim>\<open>Database.exists\<close>
  (\<^verbatim>\<open>filter_by(name=name).first()\<close> is the first row with that name).\<close>

definition count :: "vault \<Rightarrow> nat" where
  "count s = length (table s)"

definition first_by_name :: "string \<Rightarrow> credential list \<Rightarrow> credential option" where
  "first_by_name n tbl = find (\<lambda>c. c_name c = n) tbl"

definition exists :: "vault \<Rightarrow> string \<Rightarrow> bool" where
  "exists s n = (first_by_name n (table s) \<noteq> None)"

text \<open>
  What a commit does to the table. A new row gets the next rowid of SQLite (one more than
  the largest in use). The flush of a changed object is an \<^verbatim>\<open>UPDATE\<close> of the row
  with its id; setting the unmapped attribute \<^verbatim>\<open>items_dict\<close> touches no column.
  The unique constraint on \<^verbatim>\<open>name\<close> rejects a row whose name another row has.
  A commit that fails is rolled back in the database, so the table is what it was before
  the call. The model follows the database and not the session object: SQLAlchemy wants a
  \<^verbatim>\<open>rollback()\<close> before a session is used again after a failed flush, which this code
  never calls, and every operation here is one made on a session that is still usable.
\<close>

definition next_id :: "credential list \<Rightarrow> nat" where
  "next_id tbl = Suc (foldr max (map c_id tbl) 0)"

definition set_items_dict :: "nat \<Rightarrow> pyval \<Rightarrow> credential list \<Rightarrow> credential list" where
  "set_items_dict i v tbl = map (\<lambda>c. if c_id c = i then c\<lparr>items_dict := Some v\<rparr> else c) tbl"

definition set_items :: "nat \<Rightarrow> bytes \<Rightarrow> credential list \<Rightarrow> credential list" where
  "set_items i blob tbl = map (\<lambda>c. if c_id c = i then c\<lparr>c_items := blob\<rparr> else c) tbl"

definition set_name_items :: "nat \<Rightarrow> string \<Rightarrow> bytes \<Rightarrow> credential list \<Rightarrow> credential list" where
  "set_name_items i n blob tbl =
     map (\<lambda>c. if c_id c = i then c\<lparr>c_name := n, c_items := blob\<rparr> else c) tbl"

definition name_taken :: "string \<Rightarrow> credential list \<Rightarrow> bool" where
  "name_taken n tbl = list_ex (\<lambda>c. c_name c = n) tbl"

definition name_taken_by_other :: "nat \<Rightarrow> string \<Rightarrow> credential list \<Rightarrow> bool" where
  "name_taken_by_other i n tbl =
     (list_ex (\<lambda>c. c_id c = i) tbl \<and> list_ex (\<lambda>c. c_id c \<noteq> i \<and> c_name c = n) tbl)"

text \<open>
  \<^verbatim>\<open>Database.insert\<close>: the payload is encrypted while the \<^verbatim>\<open>Credential\<close> is
  built; \<^verbatim>\<open>session.commit()\<close> then flushes the insert, and a failed flush is rolled
  back.
\<close>

definition insert_db :: "lib \<Rightarrow> vault \<Rightarrow> string \<Rightarrow> items \<Rightarrow> (error + unit) \<times> vault" where
  "insert_db L s n its =
     (let (blob, s1) = encrypt L s (items_val its);
          credential = \<lparr>c_id = next_id (table s1), c_name = n, c_items = blob,
                        items_dict = None\<rparr>
      in if name_taken n (table s1) then (Inl IntegrityError, s1)
         else (Inr (), s1\<lparr>table := table s1 @ [credential]\<rparr>))"

text \<open>\<^verbatim>\<open>Database.get\<close>: \<open>None\<close> when no row has the name; otherwise the payload is
  decrypted with the JSON flag and kept on the object as \<^verbatim>\<open>items_dict\<close>.\<close>

definition get :: "lib \<Rightarrow> vault \<Rightarrow> string \<Rightarrow> (error + credential option) \<times> vault" where
  "get L s n =
     (case first_by_name n (table s) of
        None \<Rightarrow> (Inr None, s)
      | Some credential \<Rightarrow>
          (case decrypt L s (c_items credential) True of
             Inl e \<Rightarrow> (Inl e, s)
           | Inr decrypted_items \<Rightarrow>
               (Inr (Some (credential\<lparr>items_dict := Some decrypted_items\<rparr>)),
                s\<lparr>table := set_items_dict (c_id credential) decrypted_items (table s)\<rparr>)))"

text \<open>\<^verbatim>\<open>Database.get_all\<close>: the same for every row, in row order; the loop stops at
  the first payload that does not decrypt.\<close>

fun decrypt_each :: "lib \<Rightarrow> vault \<Rightarrow> credential list \<Rightarrow> (error + credential list) \<times> vault" where
  "decrypt_each L s [] = (Inr [], s)"
| "decrypt_each L s (credential # rest) =
     (case decrypt L s (c_items credential) True of
        Inl e \<Rightarrow> (Inl e, s)
      | Inr decrypted_items \<Rightarrow>
          (case decrypt_each L
                  (s\<lparr>table := set_items_dict (c_id credential) decrypted_items (table s)\<rparr>) rest of
             (Inl e, s') \<Rightarrow> (Inl e, s')
           | (Inr credentials, s') \<Rightarrow>
               (Inr (credential\<lparr>items_dict := Some decrypted_items\<rparr> # credentials), s')))"

definition get_all :: "lib \<Rightarrow> vault \<Rightarrow> (error + credential list) \<times> vault" where
  "get_all L s = decrypt_each L s (table s)"

text \<open>The argument \<^verbatim>\<open>credential: str | Credential\<close> of \<^verbatim>\<open>update\<close> and
  \<^verbatim>\<open>delete\<close>, and its resolution: a name goes through \<^verbatim>\<open>get\<close>.\<close>

datatype target = ByName string | ByObject credential

definition resolve :: "lib \<Rightarrow> vault \<Rightarrow> target \<Rightarrow> (error + credential option) \<times> vault" where
  "resolve L s credential =
     (case credential of
        ByName n \<Rightarrow> get L s n
      | ByObject c \<Rightarrow> (Inr (Some c), s))"

text \<open>
  \<^verbatim>\<open>Database.update\<close>: nothing happens when the credential is \<^verbatim>\<open>None\<close>; otherwise
  the name is set, the new items are encrypted, and the commit flushes the row (an object
  whose row is gone has nothing to flush).
\<close>

definition update :: "lib \<Rightarrow> vault \<Rightarrow> target \<Rightarrow> string \<Rightarrow> items \<Rightarrow> (error + unit) \<times> vault" where
  "update L s credential new_name new_items =
     (case resolve L s credential of
        (Inl e, s1) \<Rightarrow> (Inl e, s1)
      | (Inr None, s1) \<Rightarrow> (Inr (), s1)
      | (Inr (Some c), s1) \<Rightarrow>
          (let (blob, s2) = encrypt L s1 (items_val new_items)
           in if name_taken_by_other (c_id c) new_name (table s2)
              then (Inl IntegrityError, s2)
              else (Inr (), s2\<lparr>table := set_name_items (c_id c) new_name blob (table s2)\<rparr>)))"

text \<open>\<^verbatim>\<open>Database.delete\<close>.\<close>

definition delete :: "lib \<Rightarrow> vault \<Rightarrow> target \<Rightarrow> (error + unit) \<times> vault" where
  "delete L s credential =
     (case resolve L s credential of
        (Inl e, s1) \<Rightarrow> (Inl e, s1)
      | (Inr None, s1) \<Rightarrow> (Inr (), s1)
      | (Inr (Some c), s1) \<Rightarrow>
          (Inr (), s1\<lparr>table := filter (\<lambda>r. c_id r \<noteq> c_id c) (table s1)\<rparr>))"

text \<open>
  \<^verbatim>\<open>Database.change_pswd\<close>: all rows are decrypted under the current password, the
  new password is stored in \<^verbatim>\<open>self._pswd\<close>, and the loop encrypts each
  \<^verbatim>\<open>items_dict\<close> again, under the password \<^verbatim>\<open>_encrypt\<close> now reads; one commit ends it.
\<close>

fun encrypt_each :: "lib \<Rightarrow> vault \<Rightarrow> credential list \<Rightarrow> (error + unit) \<times> vault" where
  "encrypt_each L s [] = (Inr (), s)"
| "encrypt_each L s (credential # rest) =
     (case items_dict credential of
        None \<Rightarrow> (Inl AttributeError, s)
      | Some d \<Rightarrow>
          (let (blob, s1) = encrypt L s d
           in encrypt_each L (s1\<lparr>table := set_items (c_id credential) blob (table s1)\<rparr>) rest))"

definition change_pswd :: "lib \<Rightarrow> vault \<Rightarrow> string \<Rightarrow> (error + unit) \<times> vault" where
  "change_pswd L s new_pswd =
     (case get_all L s of
        (Inl e, s1) \<Rightarrow> (Inl e, s1)
      | (Inr credentials, s1) \<Rightarrow> encrypt_each L (s1\<lparr>pswd := new_pswd\<rparr>) credentials)"

section \<open>The password file and the change-password command\<close>

text \<open>
  \<^verbatim>\<open>auth.create_pswd\<close>: the prompt returns the stripped password the user entered
  and confirmed; the file receives \<^verbatim>\<open>bcrypt.hashpw(pswd.encode(), bcrypt.gensalt())\<close>.
  The entered password and the salt that \<^verbatim>\<open>gensalt\<close> draws are arguments here.
\<close>

definition create_pswd :: "lib \<Rightarrow> vault \<Rightarrow> string \<Rightarrow> bytes \<Rightarrow> string \<times> vault" where
  "create_pswd L s entered gensalt =
     (let hashed_pswd = hashpw L (encode L entered) gensalt
      in (entered, s\<lparr>password_file := Some hashed_pswd\<rparr>))"


section \<open>Reachable states and the salt/IV pairs drawn\<close>

text \<open>
  \<^verbatim>\<open>Database.__init__\<close> on an existing database file: a session starts with the
  password \<^verbatim>\<open>authenticate_user\<close> returned.
\<close>

definition open_db :: "vault \<Rightarrow> string \<Rightarrow> vault" where
  "open_db s p = s\<lparr>pswd := p\<rparr>"

text \<open>
  The states a vault can be in: it starts empty, and every operation of \<^verbatim>\<open>Database\<close>
  and \<^verbatim>\<open>create_pswd\<close> leads from one state to the next, whatever it returns.
\<close>

inductive reachable :: "lib \<Rightarrow> vault \<Rightarrow> bool" for L :: lib where
  empty_vault: "table s = [] \<Longrightarrow> rpos s = 0 \<Longrightarrow> reachable L s"
| after_open: "reachable L s \<Longrightarrow> reachable L (open_db s p)"
| after_insert: "reachable L s \<Longrightarrow> reachable L (snd (insert_db L s n its))"
| after_get: "reachable L s \<Longrightarrow> reachable L (snd (get L s n))"
| after_get_all: "reachable L s \<Longrightarrow> reachable L (snd (get_all L s))"
| after_update: "reachable L s \<Longrightarrow> reachable L (snd (update L s target new_name new_items))"
| after_delete: "reachable L s \<Longrightarrow> reachable L (snd (delete L s target))"
| after_change_pswd: "reachable L s \<Longrightarrow> reachable L (snd (change_pswd L s new_pswd))"
| after_create_pswd: "reachable L s \<Longrightarrow> reachable L (snd (create_pswd L s entered gensalt))"

text \<open>
  Every encryption draws thirty-two bytes, a salt and an IV: \<open>draw s k\<close> is the
  \<open>k\<close>-th such pair of the generator, and \<open>salt_iv\<close> the pair a blob starts with.
\<close>

definition draw :: "vault \<Rightarrow> nat \<Rightarrow> bytes" where
  "draw s k = map (rng s) [32 * k ..< 32 * k + 32]"

definition salt_iv :: "bytes \<Rightarrow> bytes" where
  "salt_iv blob = take 32 blob"

text \<open>
  The invariant of the reachable states: ids are distinct, the generator has been read in
  whole pairs, and every stored payload starts with one of the pairs drawn so far, rows
  with different ids with pairs of different index (\<open>f\<close> maps an id to the index of
  its pair).
\<close>

definition salts_fresh :: "vault \<Rightarrow> bool" where
  "salts_fresh s =
     (distinct (map c_id (table s)) \<and>
      (\<exists>n f. rpos s = 32 * n \<and> inj_on f (c_id ` set (table s)) \<and>
         (\<forall>c\<in>set (table s). f (c_id c) < n \<and> salt_iv (c_items c) = draw s (f (c_id c)))))"

section \<open>What the theorems assume of the library\<close>

text \<open>The block functions are inverse to each other on sixteen-byte blocks, under
  every key.\<close>

definition block_cipher_ok :: "lib \<Rightarrow> bool" where
  "block_cipher_ok L =
     (\<forall>k b. length b = 16 \<longrightarrow>
        length (AES_encrypt_block L k b) = 16 \<and>
        AES_decrypt_block L k (AES_encrypt_block L k b) = b)"

text \<open>The text that \<^verbatim>\<open>_encrypt\<close> makes of a value survives \<^verbatim>\<open>encode\<close> and
  \<^verbatim>\<open>decode\<close>, and \<^verbatim>\<open>json.loads\<close> reads the value back from what
  \<^verbatim>\<open>json.dumps\<close> wrote.\<close>

definition codec_roundtrip :: "lib \<Rightarrow> pyval \<Rightarrow> bool" where
  "codec_roundtrip L v =
     (decode L (encode L (json_dumps L v)) = Some (json_dumps L v) \<and>
      json_loads L (json_dumps L v) = Some v)"

section \<open>A small instance of the library\<close>

text \<open>
  An executable instance of \<open>lib\<close>, to run the model on concrete inputs. Its block
  function reverses a block and adds the first byte of the key; its key derivation
  takes the first bytes of the password, the salt and a filler; its text codec is the identity on ASCII; its JSON writer and
  reader handle dicts of strings, written as \<^verbatim>\<open>json.dumps\<close> writes them.
\<close>

definition key_byte :: "bytes \<Rightarrow> byte" where
  "key_byte k = (case k of [] \<Rightarrow> 0 | x # xs \<Rightarrow> x)"

definition demo_encrypt_block :: "bytes \<Rightarrow> bytes \<Rightarrow> bytes" where
  "demo_encrypt_block k b = map (\<lambda>x. x + key_byte k) (rev b)"

definition demo_decrypt_block :: "bytes \<Rightarrow> bytes \<Rightarrow> bytes" where
  "demo_decrypt_block k c = rev (map (\<lambda>x. x - key_byte k) c)"

definition demo_PBKDF2 :: "string \<Rightarrow> bytes \<Rightarrow> nat \<Rightarrow> bytes" where
  "demo_PBKDF2 password salt dkLen =
     take dkLen (map of_char password @ salt @ replicate dkLen 1)"

definition demo_encode :: "string \<Rightarrow> bytes" where
  "demo_encode t = map of_char t"

definition demo_decode :: "bytes \<Rightarrow> string option" where
  "demo_decode b = (if list_all (\<lambda>x. x < 128) b then Some (map (\<lambda>x. char_of (unat x)) b) else None)"

definition demo_hashpw :: "bytes \<Rightarrow> bytes \<Rightarrow> bytes" where
  "demo_hashpw password salt = salt @ rev password"

definition quote :: "string \<Rightarrow> string" where
  "quote t = [CHR 0x22] @ concat (map (\<lambda>c. if c = CHR 0x22 \<or> c = CHR 0x5C then [CHR 0x5C, c] else [c]) t) @ [CHR 0x22]"

fun join :: "string \<Rightarrow> string list \<Rightarrow> string" where
  "join sep [] = []"
| "join sep [x] = x"
| "join sep (x # y # ys) = x @ sep @ join sep (y # ys)"

definition demo_dumps :: "pyval \<Rightarrow> string" where
  "demo_dumps v =
     (case v of
        PStr t \<Rightarrow> quote t
      | PDict kvs \<Rightarrow>
          ''{'' @ join '', '' (map (\<lambda>(k, x). quote k @ '': '' @ (case x of PStr t \<Rightarrow> quote t | _ \<Rightarrow> ''null'')) kvs) @ ''}''
      | _ \<Rightarrow> ''null'')"

fun scan_body :: "string \<Rightarrow> (string \<times> string) option" where
  "scan_body [] = None"
| "scan_body [c] = (if c = CHR 0x22 then Some ([], []) else None)"
| "scan_body (c # d # cs) =
     (if c = CHR 0x22 then Some ([], d # cs)
      else if c = CHR 0x5C then
        (if d = CHR 0x22 \<or> d = CHR 0x5C
         then map_option (\<lambda>(t, r). (d # t, r)) (scan_body cs) else None)
      else map_option (\<lambda>(t, r). (c # t, r)) (scan_body (d # cs)))"

definition scan_string :: "string \<Rightarrow> (string \<times> string) option" where
  "scan_string t = (case t of c # cs \<Rightarrow> if c = CHR 0x22 then scan_body cs else None | [] \<Rightarrow> None)"

fun scan_members :: "nat \<Rightarrow> string \<Rightarrow> (string \<times> pyval) list option" where
  "scan_members 0 t = None"
| "scan_members (Suc fuel) t =
     (case scan_string t of
        None \<Rightarrow> None
      | Some (k, r1) \<Rightarrow>
          if take 2 r1 \<noteq> '': '' then None
          else (case scan_string (drop 2 r1) of
                  None \<Rightarrow> None
                | Some (v, r2) \<Rightarrow>
                    if r2 = ''}'' then Some [(k, PStr v)]
                    else if take 2 r2 = '', ''
                    then map_option ((#) (k, PStr v)) (scan_members fuel (drop 2 r2))
                    else None))"

definition demo_loads :: "string \<Rightarrow> pyval option" where
  "demo_loads t =
     (if t = ''{}'' then Some (PDict [])
      else if t = ''null'' then Some PNone
      else (case t of
              c # cs \<Rightarrow>
                if c = CHR ''{'' then map_option PDict (scan_members (length cs) cs)
                else (case scan_string t of Some (x, []) \<Rightarrow> Some (PStr x) | _ \<Rightarrow> None)
            | [] \<Rightarrow> None))"

definition demo_lib :: lib where
  "demo_lib = \<lparr>PBKDF2 = demo_PBKDF2, AES_encrypt_block = demo_encrypt_block,
     AES_decrypt_block = demo_decrypt_block, json_dumps = demo_dumps, json_loads = demo_loads,
     encode = demo_encode, decode = demo_decode, hashpw = demo_hashpw\<rparr>"

definition demo_vault :: vault where
  "demo_vault = \<lparr>pswd = ''correct-horse'', table = [], password_file = None,
     rng = (\<lambda>i. of_nat (7 * i + 3)), rpos = 0\<rparr>"


section \<open>Notions of the specification\<close>

text \<open>The specification's ``length rounded up to the cipher block size'': the least
  multiple of \<open>b\<close> that is not below \<open>n\<close>.\<close>

definition round_up :: "nat \<Rightarrow> nat \<Rightarrow> nat" where
  "round_up n b = ((n + b - 1) div b) * b"

section \<open>Concrete inputs\<close>

text \<open>An item map whose JSON text is sixteen characters long.\<close>

definition demo_items :: items where
  "demo_items = [(''a'', ''bcdefgh'')]"

text \<open>The vault after one insert (scenario A of the specification), and the row it
  then holds.\<close>

definition github_items :: items where
  "github_items = [(''user'', ''alice''), (''pass'', ''x1'')]"

definition github_vault :: vault where
  "github_vault = snd (insert_db demo_lib demo_vault ''GitHub'' github_items)"

definition github_row :: credential where
  "github_row = \<lparr>c_id = 1, c_name = ''GitHub'',
                  c_items = fst (encrypt demo_lib demo_vault (items_val github_items)),
                  items_dict = None\<rparr>"

text \<open>The vault after a second insert.\<close>

definition two_vault :: vault where
  "two_vault = snd (insert_db demo_lib github_vault ''GitLab'' demo_items)"


section \<open>Properties of padding and CBC\<close>

declare cbc_encrypt.simps [simp del] cbc_decrypt_blocks.simps [simp del]

lemma cbc_encrypt_Nil: "cbc_encrypt E prev [] = []"
  by (simp add: cbc_encrypt.simps)

lemma cbc_encrypt_step:
  "data \<noteq> [] \<Longrightarrow> cbc_encrypt E prev data =
     E (xor_bytes (take 16 data) prev) @ cbc_encrypt E (E (xor_bytes (take 16 data) prev)) (drop 16 data)"
  by (subst cbc_encrypt.simps) (simp add: Let_def)

lemma cbc_decrypt_blocks_Nil: "cbc_decrypt_blocks D prev [] = []"
  by (simp add: cbc_decrypt_blocks.simps)

lemma cbc_decrypt_blocks_step:
  "data \<noteq> [] \<Longrightarrow> cbc_decrypt_blocks D prev data =
     xor_bytes (D (take 16 data)) prev @ cbc_decrypt_blocks D (take 16 data) (drop 16 data)"
  by (subst cbc_decrypt_blocks.simps) (simp add: Let_def)

lemma length_pad: "length (pad d 16) = 16 * (length d div 16 + 1)"
  unfolding pad_def Let_def
  by (simp add: algebra_simps) presburger

lemma pad_aligned: "length (pad d 16) mod 16 = 0"
  by (simp add: length_pad)

lemma unpad_pad: "unpad (pad d 16) 16 = Inr d"
proof -
  define p where "p = 16 - length d mod 16"
  have p: "1 \<le> p" "p \<le> 16" unfolding p_def by simp_all
  have pd: "pad d 16 = d @ replicate p (of_nat p)" by (simp add: pad_def p_def)
  have len: "length (pad d 16) = length d + p" by (simp add: pd)
  have al: "(length d + p) mod 16 = 0" using pad_aligned[of d] len by simp
  have un: "unat (of_nat p :: byte) = p" using p by (simp add: unat_of_nat)
  have la: "last (d @ replicate p (of_nat p :: byte)) = of_nat p" using p by (cases p) auto
  show ?thesis
    unfolding pd unpad_def Let_def using p al un la by (simp add: min_def)
qed

lemma xor_bytes_cancel: "length a = length b \<Longrightarrow> xor_bytes (xor_bytes a b) b = a"
  unfolding xor_bytes_def
  by (induction a b rule: list_induct2) (simp_all add: xor.assoc)

lemma length_xor_bytes: "length (xor_bytes a b) = min (length a) (length b)"
  by (simp add: xor_bytes_def)

lemma aligned_nonempty: "data \<noteq> [] \<Longrightarrow> length data mod 16 = 0 \<Longrightarrow> 16 \<le> length (data::bytes)"
  by (cases "length data < 16") auto

lemma length_cbc_encrypt:
  "\<forall>b. length b = 16 \<longrightarrow> length (E b) = 16 \<Longrightarrow> length prev = 16 \<Longrightarrow>
   length data mod 16 = 0 \<Longrightarrow> length (cbc_encrypt E prev data) = length data"
proof (induction E prev data rule: cbc_encrypt.induct)
  case (1 E prev data)
  show ?case
  proof (cases "data = []")
    case True
    then show ?thesis by (simp add: cbc_encrypt_Nil)
  next
    case False
    have ge: "16 \<le> length data" using False "1.prems" by (simp add: aligned_nonempty)
    define c where "c = E (xor_bytes (take 16 data) prev)"
    have lc: "length c = 16" unfolding c_def using ge "1.prems"
      by (simp add: length_xor_bytes)
    have ld: "length (drop 16 data) mod 16 = 0" using ge "1.prems"(3)
      by simp presburger
    have "length (cbc_encrypt E c (drop 16 data)) = length (drop 16 data)"
      using "1.IH"[OF False c_def] "1.prems"(1) lc ld by blast
    then show ?thesis
      using lc ge by (simp add: cbc_encrypt_step[OF False] c_def[symmetric])
  qed
qed

lemma cbc_decrypt_encrypt:
  "\<forall>b. length b = 16 \<longrightarrow> length (E b) = 16 \<and> D (E b) = b \<Longrightarrow> length prev = 16 \<Longrightarrow>
   length data mod 16 = 0 \<Longrightarrow> cbc_decrypt_blocks D prev (cbc_encrypt E prev data) = data"
proof (induction E prev data rule: cbc_encrypt.induct)
  case (1 E prev data)
  show ?case
  proof (cases "data = []")
    case True
    then show ?thesis by (simp add: cbc_encrypt_Nil cbc_decrypt_blocks_Nil)
  next
    case False
    have ge: "16 \<le> length data" using False "1.prems" by (simp add: aligned_nonempty)
    define c where "c = E (xor_bytes (take 16 data) prev)"
    have lx: "length (xor_bytes (take 16 data) prev) = 16"
      using ge "1.prems"(2) by (simp add: length_xor_bytes)
    have lc: "length c = 16" and dc: "D c = xor_bytes (take 16 data) prev"
      unfolding c_def using lx "1.prems"(1) by simp_all
    have ld: "length (drop 16 data) mod 16 = 0" using ge "1.prems"(3)
      by simp presburger
    have ih: "cbc_decrypt_blocks D c (cbc_encrypt E c (drop 16 data)) = drop 16 data"
      by (rule "1.IH"[OF False c_def "1.prems"(1) lc ld])
    have enc: "cbc_encrypt E prev data = c @ cbc_encrypt E c (drop 16 data)"
      by (simp add: cbc_encrypt_step[OF False] c_def)
    have ne: "c @ cbc_encrypt E c (drop 16 data) \<noteq> []" using lc by auto
    have xx: "xor_bytes (xor_bytes (take 16 data) prev) prev = take 16 data"
      using ge "1.prems"(2) by (simp add: xor_bytes_cancel)
    show ?thesis
      unfolding enc cbc_decrypt_blocks_step[OF ne] using lc dc ih xx by simp
  qed
qed

section \<open>Encryption followed by decryption\<close>

lemma encrypt_eq:
  "encrypt L s data =
     (map (rng s) [rpos s ..< rpos s + 16] @ map (rng s) [rpos s + 16 ..< rpos s + 32] @
      cbc_encrypt (AES_encrypt_block L (PBKDF2 L (pswd s) (map (rng s) [rpos s ..< rpos s + 16]) 32))
        (map (rng s) [rpos s + 16 ..< rpos s + 32]) (pad (encode L (serialize L data)) 16),
      s\<lparr>rpos := rpos s + 32\<rparr>)"
  by (simp add: encrypt_def get_random_bytes_def derive_key_def Let_def add.commute)

lemma block_cipher_ok_demo: "block_cipher_ok demo_lib"
  by (simp add: block_cipher_ok_def demo_lib_def demo_encrypt_block_def demo_decrypt_block_def
      rev_map comp_def)

lemma decrypt_encrypt:
  assumes ok: "block_cipher_ok L"
    and dec: "decode L (encode L (serialize L data)) = Some (serialize L data)"
    and pw: "pswd s' = pswd s"
  shows "decrypt L s' (fst (encrypt L s data)) json =
           (if json then (case json_loads L (serialize L data) of
                            None \<Rightarrow> Inl JSONDecodeError | Some v \<Rightarrow> Inr v)
            else Inr (PStr (serialize L data)))"
proof -
  define salt where "salt = map (rng s) [rpos s ..< rpos s + 16]"
  define iv where "iv = map (rng s) [rpos s + 16 ..< rpos s + 32]"
  define key where "key = PBKDF2 L (pswd s) salt 32"
  define padded where "padded = pad (encode L (serialize L data)) 16"
  define ct where "ct = cbc_encrypt (AES_encrypt_block L key) iv padded"
  have blob: "fst (encrypt L s data) = salt @ iv @ ct"
    by (simp add: encrypt_eq salt_def iv_def key_def padded_def ct_def)
  have ls: "length salt = 16" and li: "length iv = 16" by (simp_all add: salt_def iv_def)
  have E: "\<forall>b. length b = 16 \<longrightarrow> length (AES_encrypt_block L key b) = 16 \<and>
              AES_decrypt_block L key (AES_encrypt_block L key b) = b"
    using ok by (simp add: block_cipher_ok_def)
  have al: "length padded mod 16 = 0" by (simp add: padded_def pad_aligned)
  have lct: "length ct = length padded"
    unfolding ct_def using E li al by (intro length_cbc_encrypt) auto
  have plain: "cbc_decrypt (AES_decrypt_block L key) iv ct = Inr padded"
    unfolding cbc_decrypt_def ct_def[symmetric] lct
    using al cbc_decrypt_encrypt[OF E li al] by (simp add: ct_def)
  have t16: "take 16 (salt @ iv @ ct) = salt" using ls by simp
  have d16: "take 16 (drop 16 (salt @ iv @ ct)) = iv" using ls li by simp
  have d32: "drop 32 (salt @ iv @ ct) = ct" using ls li by simp
  show ?thesis
    unfolding blob decrypt_def Let_def t16 d16 d32 derive_key_def pw key_def[symmetric]
    using li plain dec by (simp add: padded_def unpad_pad)
qed

lemma serialize_items_val: "serialize L (items_val m) = json_dumps L (items_val m)"
  by (simp add: serialize_def items_val_def)

lemma codec_demo_1:
  "codec_roundtrip demo_lib (items_val [(''user'', ''alice''), (''pass'', ''x1'')])"
  by code_simp



section \<open>The layout of a blob\<close>

lemma length_ciphertext:
  assumes "block_cipher_ok L"
  shows "length (drop 32 (fst (encrypt L s data))) = 16 * (length (encode L (serialize L data)) div 16 + 1)"
proof -
  have E: "\<forall>b. length b = 16 \<longrightarrow>
             length (AES_encrypt_block L (PBKDF2 L (pswd s) (map (rng s) [rpos s ..< rpos s + 16]) 32) b) = 16"
    using assms by (simp add: block_cipher_ok_def)
  show ?thesis
    by (simp add: encrypt_eq length_cbc_encrypt[OF E] pad_aligned length_pad)
qed

lemma blob_parts:
  "take 16 (fst (encrypt L s data)) = map (rng s) [rpos s ..< rpos s + 16]"
  "take 16 (drop 16 (fst (encrypt L s data))) = map (rng s) [rpos s + 16 ..< rpos s + 32]"
  "drop 32 (fst (encrypt L s data)) =
     cbc_encrypt (AES_encrypt_block L (derive_key L s (map (rng s) [rpos s ..< rpos s + 16])))
       (map (rng s) [rpos s + 16 ..< rpos s + 32]) (pad (encode L (serialize L data)) 16)"
  by (simp_all add: encrypt_eq derive_key_def)

lemma demo_plaintext_length:
  "length (encode demo_lib (serialize demo_lib (items_val demo_items))) = 16"
  by code_simp

text \<open>
  Claim C5, as stated, fails: the JSON text of \<open>demo_items\<close> has sixteen bytes, which
  is its own length rounded up to the block size, but the cipher output has thirty-two,
  since pkcs7 padding always adds between one and sixteen bytes.
\<close>

theorem C5_counterexample:
  "length (drop 32 (fst (encrypt demo_lib demo_vault (items_val demo_items))))
     \<noteq> round_up (length (encode demo_lib (serialize demo_lib (items_val demo_items)))) 16"
  using length_ciphertext[OF block_cipher_ok_demo, of demo_vault "items_val demo_items"]
  by (simp add: demo_plaintext_length round_up_def)

text \<open>
  Claim C5, amended. For every password and value, bytes 0 to 16 of the blob are the salt
  that was drawn, bytes 16 to 32 the IV, and the rest is the CBC output for the padded
  plaintext; its length is the next multiple of sixteen strictly above the plaintext
  length, \<open>16 * (n div 16 + 1)\<close> for a plaintext of \<open>n\<close> bytes.
\<close>

theorem C5_blob_layout:
  assumes "block_cipher_ok L"
  shows "take 16 (fst (encrypt L s data)) = map (rng s) [rpos s ..< rpos s + 16] \<and>
         take 16 (drop 16 (fst (encrypt L s data))) = map (rng s) [rpos s + 16 ..< rpos s + 32] \<and>
         drop 32 (fst (encrypt L s data)) =
           cbc_encrypt (AES_encrypt_block L (derive_key L s (map (rng s) [rpos s ..< rpos s + 16])))
             (map (rng s) [rpos s + 16 ..< rpos s + 32]) (pad (encode L (serialize L data)) 16) \<and>
         length (drop 32 (fst (encrypt L s data)))
           = 16 * (length (encode L (serialize L data)) div 16 + 1)"
  using length_ciphertext[OF assms, of s data] by (simp add: blob_parts)

theorem C5_blob_layout_witness:
  "block_cipher_ok demo_lib \<and>
   take 16 (fst (encrypt demo_lib demo_vault (items_val demo_items)))
     = map (rng demo_vault) [rpos demo_vault ..< rpos demo_vault + 16] \<and>
   length (drop 32 (fst (encrypt demo_lib demo_vault (items_val demo_items)))) = 32"
proof -
  note t = C5_blob_layout[OF block_cipher_ok_demo, of demo_vault "items_val demo_items"]
  have a: "take 16 (fst (encrypt demo_lib demo_vault (items_val demo_items)))
             = map (rng demo_vault) [rpos demo_vault ..< rpos demo_vault + 16]"
    using t by blast
  have d: "length (drop 32 (fst (encrypt demo_lib demo_vault (items_val demo_items))))
             = 16 * (length (encode demo_lib (serialize demo_lib (items_val demo_items))) div 16 + 1)"
    using t by blast
  show ?thesis using a d block_cipher_ok_demo demo_plaintext_length by simp
qed

section \<open>Insert, update and delete\<close>

lemma snd_encrypt: "snd (encrypt L s data) = s\<lparr>rpos := rpos s + 32\<rparr>"
  by (simp add: encrypt_eq)

lemma exists_iff: "exists s n \<longleftrightarrow> name_taken n (table s)"
  by (auto simp: exists_def first_by_name_def name_taken_def find_None_iff list_ex_iff)

lemma insert_db_fresh:
  "\<not> exists s n \<Longrightarrow>
   insert_db L s n its =
     (Inr (), s\<lparr>rpos := rpos s + 32,
                table := table s @ [\<lparr>c_id = next_id (table s), c_name = n,
                                     c_items = fst (encrypt L s (items_val its)),
                                     items_dict = None\<rparr>]\<rparr>)"
  by (simp add: insert_db_def exists_iff encrypt_eq)

lemma insert_db_dup:
  "exists s n \<Longrightarrow> insert_db L s n its = (Inl IntegrityError, s\<lparr>rpos := rpos s + 32\<rparr>)"
  by (simp add: insert_db_def exists_iff encrypt_eq)

lemma table_demo: "table demo_vault = []"
  by (simp add: demo_vault_def)

lemma not_exists_demo: "\<not> exists demo_vault n"
  by (simp add: exists_def first_by_name_def table_demo)

lemma exists_github: "exists github_vault ''GitHub''"
  by (simp add: github_vault_def insert_db_fresh[OF not_exists_demo] exists_def first_by_name_def
      table_demo)

lemma count_github: "count github_vault = 1"
  by (simp add: github_vault_def insert_db_fresh[OF not_exists_demo] count_def table_demo)







lemma get_absent: "\<not> exists s n \<Longrightarrow> get L s n = (Inr None, s)"
  by (simp add: get_def exists_def)

lemma update_absent: "\<not> exists s n \<Longrightarrow> update L s (ByName n) new_name new_items = (Inr (), s)"
  by (simp add: update_def resolve_def get_absent)

lemma delete_absent: "\<not> exists s n \<Longrightarrow> delete L s (ByName n) = (Inr (), s)"
  by (simp add: delete_def resolve_def get_absent)

lemma not_exists_gitlab: "\<not> exists github_vault ''GitLab''"
  by (simp add: github_vault_def insert_db_fresh[OF not_exists_demo] exists_def first_by_name_def
      table_demo)

text \<open>
  Claim C7, as stated, fails: \<^verbatim>\<open>update\<close> and \<^verbatim>\<open>delete\<close> of a name that no row has
  return normally and leave the state as it was.
\<close>

theorem C7_counterexample:
  "count github_vault = 1 \<and> \<not> exists github_vault ''GitLab'' \<and>
   update demo_lib github_vault (ByName ''GitLab'') ''GitHub2'' demo_items = (Inr (), github_vault) \<and>
   delete demo_lib github_vault (ByName ''GitLab'') = (Inr (), github_vault)"
  by (simp add: count_github not_exists_gitlab update_absent delete_absent)

text \<open>
  Claim C7, amended. \<^verbatim>\<open>update\<close> and \<^verbatim>\<open>delete\<close> resolve their target by direct
  reference or by name lookup (through \<^verbatim>\<open>get\<close>); when the lookup finds no row they
  return without an error and without effect.
\<close>

theorem C7_silent_when_absent:
  "resolve L s (ByObject c) = (Inr (Some c), s) \<and>
   resolve L s (ByName n) = get L s n \<and>
   (\<not> exists s n \<longrightarrow>
      update L s (ByName n) new_name new_items = (Inr (), s) \<and>
      delete L s (ByName n) = (Inr (), s))"
  by (simp add: resolve_def update_absent delete_absent)

theorem C7_silent_when_absent_witness:
  "\<not> exists demo_vault ''GitHub'' \<and>
   update demo_lib demo_vault (ByName ''GitHub'') ''GitLab'' demo_items = (Inr (), demo_vault) \<and>
   delete demo_lib demo_vault (ByName ''GitHub'') = (Inr (), demo_vault)"
  using C7_silent_when_absent[where L = demo_lib and s = demo_vault and n = "''GitHub''"
      and new_name = "''GitLab''" and new_items = demo_items]
    not_exists_demo by simp

section \<open>Reading a credential\<close>

lemma decrypt_cong: "pswd s' = pswd s \<Longrightarrow> decrypt L s' blob j = decrypt L s blob j"
  by (simp add: decrypt_def derive_key_def)

lemma decrypt_table: "decrypt L (s\<lparr>table := tbl\<rparr>) blob j = decrypt L s blob j"
  by (rule decrypt_cong) simp

lemma find_name_set_items_dict:
  "first_by_name n (set_items_dict i v tbl)
     = map_option (\<lambda>c. if c_id c = i then c\<lparr>items_dict := Some v\<rparr> else c) (first_by_name n tbl)"
  unfolding first_by_name_def set_items_dict_def
  by (induction tbl) auto

lemma set_items_dict_idem: "set_items_dict i v (set_items_dict i v tbl) = set_items_dict i v tbl"
  by (induction tbl) (auto simp: set_items_dict_def)

lemma persisted_set_items_dict: "map persisted (set_items_dict i v tbl) = map persisted tbl"
  by (induction tbl) (auto simp: set_items_dict_def persisted_def)

lemma get_frame:
  assumes "get L s n = (r, s1)"
  shows "map persisted (table s1) = map persisted (table s) \<and> pswd s1 = pswd s \<and>
         password_file s1 = password_file s \<and> rng s1 = rng s \<and> rpos s1 = rpos s"
proof (cases "first_by_name n (table s)")
  case None
  then show ?thesis using assms by (simp add: get_def) 
next
  case (Some c)
  then show ?thesis using assms
    by (cases "decrypt L s (c_items c) True") (auto simp: get_def persisted_set_items_dict)
qed

lemma get_again:
  assumes "get L s n = (r, s1)"
  shows "get L s1 n = (r, s1)"
proof (cases "first_by_name n (table s)")
  case None
  then show ?thesis using assms by (auto simp: get_def)
next
  case (Some c)
  show ?thesis
  proof (cases "decrypt L s (c_items c) True")
    case (Inl e)
    then show ?thesis using assms Some by (auto simp: get_def)
  next
    case (Inr v)
    have s1: "s1 = s\<lparr>table := set_items_dict (c_id c) v (table s)\<rparr>"
      and r: "r = Inr (Some (c\<lparr>items_dict := Some v\<rparr>))"
      using assms Some Inr by (auto simp: get_def)
    define s2 where "s2 = s\<lparr>table := set_items_dict (c_id c) v (table s)\<rparr>"
    define c2 where "c2 = c\<lparr>items_dict := Some v\<rparr>"
    have f: "first_by_name n (table s2) = Some c2"
      by (simp add: s2_def c2_def find_name_set_items_dict Some)
    have d: "decrypt L s2 (c_items c2) True = Inr v"
      using Inr by (simp add: s2_def c2_def decrypt_table)
    have t: "s2\<lparr>table := set_items_dict (c_id c2) v (table s2)\<rparr> = s2"
      by (simp add: s2_def c2_def set_items_dict_idem)
    have c: "c2\<lparr>items_dict := Some v\<rparr> = c2"
      by (simp add: c2_def)
    have "get L s2 n = (Inr (Some c2), s2)"
      unfolding get_def f using d t c by simp
    then show ?thesis
      by (simp add: s1 r s2_def c2_def)
  qed
qed

text \<open>
  Claim C9. For every state and name, a second \<^verbatim>\<open>get\<close> returns what the first one
  returned (the same credential with the same \<^verbatim>\<open>items_dict\<close>; not \<open>None\<close> when a
  row has the name), and neither call changes a persisted column, the password or the
  password file: the only thing \<^verbatim>\<open>get\<close> writes is the attribute \<^verbatim>\<open>items_dict\<close>
  of the loaded object.
\<close>

theorem C9_get_twice:
  assumes "get L s n = (r, s1)"
  shows "get L s1 n = (r, s1) \<and>
         map persisted (table s1) = map persisted (table s) \<and>
         pswd s1 = pswd s \<and> password_file s1 = password_file s \<and>
         (exists s n \<longrightarrow> r \<noteq> Inr None)"
proof -
  have "r \<noteq> Inr None" if ex: "exists s n"
  proof -
    obtain c where c: "first_by_name n (table s) = Some c"
      using ex unfolding exists_def by blast
    show ?thesis using assms c
      by (cases "decrypt L s (c_items c) True") (auto simp: get_def)
  qed
  then show ?thesis using get_again[OF assms] get_frame[OF assms] by blast
qed

lemma github_vault_eq:
  "github_vault = demo_vault\<lparr>rpos := rpos demo_vault + 32, table := [github_row]\<rparr>"
  by (simp add: github_vault_def insert_db_fresh[OF not_exists_demo] table_demo github_row_def
      github_items_def next_id_def)

lemma decrypt_github_row:
  "decrypt demo_lib github_vault (c_items github_row) True = Inr (items_val github_items)"
proof -
  have "codec_roundtrip demo_lib (items_val github_items)"
    using codec_demo_1 by (simp add: github_items_def)
  then have "decrypt demo_lib github_vault (fst (encrypt demo_lib demo_vault (items_val github_items))) True
        = Inr (items_val github_items)"
    using decrypt_encrypt[OF block_cipher_ok_demo, of "items_val github_items" github_vault demo_vault True]
    by (simp add: codec_roundtrip_def serialize_items_val github_vault_eq)
  then show ?thesis by (simp add: github_row_def)
qed

lemma get_github:
  "get demo_lib github_vault ''GitHub''
     = (Inr (Some (github_row\<lparr>items_dict := Some (items_val github_items)\<rparr>)),
        github_vault\<lparr>table := [github_row\<lparr>items_dict := Some (items_val github_items)\<rparr>]\<rparr>)"
proof -
  have f: "first_by_name ''GitHub'' (table github_vault) = Some github_row"
    by (simp add: github_vault_eq first_by_name_def github_row_def)
  have t: "set_items_dict (c_id github_row) v (table github_vault)
             = [github_row\<lparr>items_dict := Some v\<rparr>]" for v
    by (simp add: github_vault_eq set_items_dict_def)
  show ?thesis
    unfolding get_def f using decrypt_github_row by (simp add: t)
qed

theorem C9_get_twice_witness:
  "exists github_vault ''GitHub'' \<and>
   map_sum id (map_option items_dict) (fst (get demo_lib github_vault ''GitHub''))
     = Inr (Some (Some (items_val github_items))) \<and>
   get demo_lib (snd (get demo_lib github_vault ''GitHub'')) ''GitHub''
     = get demo_lib github_vault ''GitHub'' \<and>
   map persisted (table (snd (get demo_lib github_vault ''GitHub'')))
     = map persisted (table github_vault)"
  using C9_get_twice[of demo_lib github_vault "''GitHub''"
      "fst (get demo_lib github_vault ''GitHub'')" "snd (get demo_lib github_vault ''GitHub'')"]
    exists_github
  by (simp add: get_github)

section \<open>Updating a credential\<close>

lemma persisted_set_name_items:
  "map persisted (set_name_items i n b tbl)
     = map (\<lambda>row. if c_id row = i then (c_id row, n, b) else persisted row) tbl"
  by (induction tbl) (auto simp: set_name_items_def persisted_def)

lemma ids_set_name_items: "map c_id (set_name_items i n b tbl) = map c_id tbl"
  by (induction tbl) (auto simp: set_name_items_def)

lemma map_c_id_persisted: "map c_id tbl = map fst (map persisted tbl)"
  by (simp add: persisted_def comp_def)

lemma resolve_frame:
  assumes "resolve L s target = (r, s1)"
  shows "map persisted (table s1) = map persisted (table s) \<and> pswd s1 = pswd s \<and>
         password_file s1 = password_file s \<and> rng s1 = rng s \<and> rpos s1 = rpos s"
proof (cases target)
  case (ByName n)
  then show ?thesis using assms get_frame[of L s n r s1] by (simp add: resolve_def)
next
  case (ByObject c)
  then show ?thesis using assms by (auto simp: resolve_def)
qed

lemma fst_encrypt_cong:
  "pswd s1 = pswd s \<Longrightarrow> rng s1 = rng s \<Longrightarrow> rpos s1 = rpos s \<Longrightarrow>
   fst (encrypt L s1 data) = fst (encrypt L s data)"
  by (simp add: encrypt_eq)

lemma update_error:
  "resolve L s target = (Inl e, s1) \<Longrightarrow> update L s target new_name new_items = (Inl e, s1)"
  by (simp add: update_def)

lemma update_none:
  "resolve L s target = (Inr None, s1) \<Longrightarrow> update L s target new_name new_items = (Inr (), s1)"
  by (simp add: update_def)

lemma update_some:
  assumes res: "resolve L s target = (Inr (Some c), s1)"
  shows "update L s target new_name new_items =
           (if name_taken_by_other (c_id c) new_name (table s1)
            then (Inl IntegrityError, s1\<lparr>rpos := rpos s1 + 32\<rparr>)
            else (Inr (), s1\<lparr>rpos := rpos s1 + 32,
                              table := set_name_items (c_id c) new_name
                                 (fst (encrypt L s (items_val new_items))) (table s1)\<rparr>))"
proof -
  have e: "fst (encrypt L s1 (items_val new_items)) = fst (encrypt L s (items_val new_items))"
    using resolve_frame[OF res] by (intro fst_encrypt_cong) simp_all
  have enc: "encrypt L s1 (items_val new_items)
               = (fst (encrypt L s (items_val new_items)), s1\<lparr>rpos := rpos s1 + 32\<rparr>)"
    using e snd_encrypt[of L s1 "items_val new_items"] by (simp add: prod_eq_iff)
  show ?thesis
    by (simp add: update_def res enc)
qed

text \<open>
  Claim C10. \<^verbatim>\<open>update\<close> never changes an id: whatever its outcome, the ids of the
  table are the same, in the same order. When it fails, no persisted column has changed;
  when it succeeds on a resolved credential, the rows with that id have the new name and
  the new payload, and every other row has the columns it had.
\<close>

theorem C10_update_keeps_id:
  "map c_id (table (snd (update L s target new_name new_items))) = map c_id (table s) \<and>
   (\<forall>e. fst (update L s target new_name new_items) = Inl e \<longrightarrow>
      map persisted (table (snd (update L s target new_name new_items)))
        = map persisted (table s)) \<and>
   (\<forall>c. fst (update L s target new_name new_items) = Inr () \<longrightarrow>
      fst (resolve L s target) = Inr (Some c) \<longrightarrow>
      map persisted (table (snd (update L s target new_name new_items)))
        = map (\<lambda>row. if c_id row = c_id c
                      then (c_id row, new_name, fst (encrypt L s (items_val new_items)))
                      else persisted row) (table s))"
proof -
  obtain r s1 where res: "resolve L s target = (r, s1)" by (cases "resolve L s target")
  have p: "map persisted (table s1) = map persisted (table s)"
    using resolve_frame[OF res] by simp
  have ids: "map c_id (table s1) = map c_id (table s)"
    using p by (simp add: map_c_id_persisted)
  show ?thesis
  proof (cases r)
    case (Inl e)
    then show ?thesis using p ids res by (simp add: update_error)
  next
    case (Inr oc)
    show ?thesis
    proof (cases oc)
      case None
      then show ?thesis using p ids res Inr by (simp add: update_none)
    next
      case (Some c)
      define b where "b = fst (encrypt L s (items_val new_items))"
      have res': "resolve L s target = (Inr (Some c), s1)" using res Inr Some by simp
      have "map persisted (set_name_items (c_id c) new_name b (table s1))
              = map ((\<lambda>q. if fst q = c_id c then (fst q, new_name, b) else q) \<circ> persisted) (table s1)"
        by (simp add: persisted_set_name_items persisted_def comp_def)
      also have "\<dots> = map (\<lambda>q. if fst q = c_id c then (fst q, new_name, b) else q) (map persisted (table s))"
        by (simp add: p[symmetric])
      also have "\<dots> = map (\<lambda>row. if c_id row = c_id c then (c_id row, new_name, b) else persisted row) (table s)"
        by (simp add: persisted_def comp_def)
      finally have pm: "map persisted (set_name_items (c_id c) new_name b (table s1))
              = map (\<lambda>row. if c_id row = c_id c then (c_id row, new_name, b) else persisted row) (table s)" .
      have im: "map c_id (set_name_items (c_id c) new_name b (table s1)) = map c_id (table s)"
        using ids by (simp add: ids_set_name_items)
      show ?thesis
      proof (cases "name_taken_by_other (c_id c) new_name (table s1)")
        case True
        then show ?thesis using p ids by (simp add: update_some[OF res'])
      next
        case False
        then show ?thesis using pm im res' by (simp add: update_some[OF res'] b_def)
      qed
    qed
  qed
qed

lemma resolve_github:
  "resolve demo_lib github_vault (ByName ''GitHub'')
     = (Inr (Some (github_row\<lparr>items_dict := Some (items_val github_items)\<rparr>)),
        github_vault\<lparr>table := [github_row\<lparr>items_dict := Some (items_val github_items)\<rparr>]\<rparr>)"
  by (simp add: resolve_def get_github)

lemma update_github:
  "fst (update demo_lib github_vault (ByName ''GitHub'') ''GitLab'' demo_items) = Inr ()"
  by (simp add: update_some[OF resolve_github] name_taken_by_other_def github_row_def)

lemma table_github: "table github_vault = [github_row]"
  by (simp add: github_vault_eq)

theorem C10_update_keeps_id_witness:
  "fst (update demo_lib github_vault (ByName ''GitHub'') ''GitLab'' demo_items) = Inr () \<and>
   map c_id (table (snd (update demo_lib github_vault (ByName ''GitHub'') ''GitLab'' demo_items)))
     = [1] \<and>
   map persisted (table (snd (update demo_lib github_vault (ByName ''GitHub'') ''GitLab'' demo_items)))
     = [(1, ''GitLab'', fst (encrypt demo_lib github_vault (items_val demo_items)))]"
  using C10_update_keeps_id[of demo_lib github_vault "ByName ''GitHub''" "''GitLab''" demo_items]
    update_github
  by (simp add: resolve_github table_github github_row_def)

section \<open>Failures of decryption\<close>










section \<open>Changing the password\<close>

lemma ids_set_items_dict: "map c_id (set_items_dict i v tbl) = map c_id tbl"
  by (induction tbl) (auto simp: set_items_dict_def)

lemma decrypt_each_frame:
  "decrypt_each L s cs = (r, s') \<Longrightarrow>
   map persisted (table s') = map persisted (table s) \<and> pswd s' = pswd s \<and>
   password_file s' = password_file s \<and> rng s' = rng s \<and> rpos s' = rpos s"
proof (induction cs arbitrary: s r s')
  case Nil
  then show ?case by simp
next
  case (Cons c cs)
  show ?case
  proof (cases "decrypt L s (c_items c) True")
    case (Inl e)
    then show ?thesis using Cons.prems by simp
  next
    case (Inr v)
    define s2 where "s2 = s\<lparr>table := set_items_dict (c_id c) v (table s)\<rparr>"
    obtain r2 s3 where d: "decrypt_each L s2 cs = (r2, s3)" by (cases "decrypt_each L s2 cs")
    have s3: "s' = s3" using Cons.prems Inr d by (cases r2) (simp_all add: s2_def)
    show ?thesis using Cons.IH[OF d] unfolding s3
      by (simp add: s2_def persisted_set_items_dict)
  qed
qed


lemma encrypt_each_step:
  "items_dict c = Some d \<Longrightarrow>
   encrypt_each L s (c # rest) =
     encrypt_each L (s\<lparr>rpos := rpos s + 32,
                        table := set_items (c_id c) (fst (encrypt L s d)) (table s)\<rparr>) rest"
  by (simp add: encrypt_eq)

lemma encrypt_each_stop:
  "items_dict c = None \<Longrightarrow> encrypt_each L s (c # rest) = (Inl AttributeError, s)"
  by simp










lemma decrypt_each_stop:
  "decrypt L s (c_items c) True = Inl e \<Longrightarrow> decrypt_each L s (c # cs) = (Inl e, s)"
  by simp








section \<open>Fresh salts and IVs\<close>

lemma salt_iv_encrypt:
  "rpos s = 32 * n \<Longrightarrow> salt_iv (fst (encrypt L s data)) = draw s n"
proof -
  assume r: "rpos s = 32 * n"
  have "[32 * n ..< (32 * n + 16) + 16] = [32 * n ..< 32 * n + 16] @ [32 * n + 16 ..< (32 * n + 16) + 16]"
    by (rule upt_add_eq_append) simp
  moreover have "(32 * n + 16) + 16 = 32 * n + 32" by simp
  ultimately have u: "[32 * n ..< 32 * n + 32] = [32 * n ..< 32 * n + 16] @ [32 * n + 16 ..< 32 * n + 32]"
    by (simp only:)
  show ?thesis
    unfolding salt_iv_def draw_def u by (simp add: encrypt_eq r)
qed

lemma salts_freshI:
  assumes "distinct (map c_id (table s))" "rpos s = 32 * n" "inj_on f (c_id ` set (table s))"
    "\<And>c. c \<in> set (table s) \<Longrightarrow> f (c_id c) < n \<and> salt_iv (c_items c) = draw s (f (c_id c))"
  shows "salts_fresh s"
  unfolding salts_fresh_def using assms by blast

lemma draw_cong: "rng s' = rng s \<Longrightarrow> draw s' = draw s"
  by (simp add: draw_def fun_eq_iff)

text \<open>The invariant survives a change that leaves the persisted columns, the generator
  and its position as they were.\<close>

lemma fresh_frame:
  assumes inv: "salts_fresh s"
    and p: "map persisted (table s') = map persisted (table s)"
    and g: "rng s' = rng s" and r: "rpos s' = rpos s"
  shows "salts_fresh s'"
proof -
  from inv obtain n f where d: "distinct (map c_id (table s))" and rn: "rpos s = 32 * n"
    and inj: "inj_on f (c_id ` set (table s))"
    and ok: "\<forall>c\<in>set (table s). f (c_id c) < n \<and> salt_iv (c_items c) = draw s (f (c_id c))"
    unfolding salts_fresh_def by blast
  have ids: "map c_id (table s') = map c_id (table s)" using p by (simp add: map_c_id_persisted)
  have idset: "c_id ` set (table s') = c_id ` set (table s)"
    using arg_cong[OF ids, of set] by simp
  have mem: "\<exists>c\<in>set (table s). c_id c = c_id c' \<and> c_items c = c_items c'"
    if "c' \<in> set (table s')" for c'
  proof -
    have "persisted c' \<in> set (map persisted (table s'))" using that by simp
    then have "persisted c' \<in> set (map persisted (table s))" using p by simp
    then show ?thesis by (auto simp: persisted_def)
  qed
  show ?thesis
  proof (rule salts_freshI[where n = n and f = f])
    show "distinct (map c_id (table s'))" using d ids by simp
    show "rpos s' = 32 * n" using r rn by simp
    show "inj_on f (c_id ` set (table s'))" using inj idset by simp
    fix c' assume "c' \<in> set (table s')"
    then obtain c where "c \<in> set (table s)" "c_id c = c_id c'" "c_items c = c_items c'"
      using mem by blast
    then show "f (c_id c') < n \<and> salt_iv (c_items c') = draw s' (f (c_id c'))"
      using bspec[OF ok, of c] by (simp add: draw_cong[OF g])
  qed
qed

text \<open>It survives a draw of thirty-two bytes that are not stored.\<close>

lemma fresh_drawn:
  assumes inv: "salts_fresh s"
  shows "salts_fresh (s\<lparr>rpos := rpos s + 32\<rparr>)"
proof -
  from inv obtain n f where d: "distinct (map c_id (table s))" and rn: "rpos s = 32 * n"
    and inj: "inj_on f (c_id ` set (table s))"
    and ok: "\<forall>c\<in>set (table s). f (c_id c) < n \<and> salt_iv (c_items c) = draw s (f (c_id c))"
    unfolding salts_fresh_def by blast
  show ?thesis
  proof (rule salts_freshI[where n = "Suc n" and f = f])
    fix c assume "c \<in> set (table (s\<lparr>rpos := rpos s + 32\<rparr>))"
    then show "f (c_id c) < Suc n \<and>
               salt_iv (c_items c) = draw (s\<lparr>rpos := rpos s + 32\<rparr>) (f (c_id c))"
      using bspec[OF ok, of c] by (simp add: draw_def)
  qed (use d rn inj in simp_all)
qed

lemma next_id_above: "c \<in> set tbl \<Longrightarrow> c_id c < next_id tbl"
  by (induction tbl) (auto simp: next_id_def)

lemma fresh_append:
  assumes inv: "salts_fresh s"
    and b: "salt_iv b = draw s (rpos s div 32)"
  shows "salts_fresh (s\<lparr>rpos := rpos s + 32,
            table := table s @ [\<lparr>c_id = next_id (table s), c_name = nm, c_items = b,
                                  items_dict = None\<rparr>]\<rparr>)"
proof -
  from inv obtain n f where d: "distinct (map c_id (table s))" and rn: "rpos s = 32 * n"
    and inj: "inj_on f (c_id ` set (table s))"
    and ok: "\<forall>c\<in>set (table s). f (c_id c) < n \<and> salt_iv (c_items c) = draw s (f (c_id c))"
    unfolding salts_fresh_def by blast
  define i where "i = next_id (table s)"
  have fresh: "i \<notin> c_id ` set (table s)"
  proof
    assume "i \<in> c_id ` set (table s)"
    then obtain c where "c \<in> set (table s)" "c_id c = i" by auto
    then show False using next_id_above[of c "table s"] by (simp add: i_def)
  qed
  have nf: "n \<notin> f ` c_id ` set (table s)" using ok by auto
  have bn: "salt_iv b = draw s n" using b rn by simp
  show ?thesis
    unfolding i_def[symmetric]
  proof (rule salts_freshI[where n = "Suc n" and f = "f(i := n)"])
    show "distinct (map c_id (table (s\<lparr>rpos := rpos s + 32,
            table := table s @ [\<lparr>c_id = i, c_name = nm, c_items = b, items_dict = None\<rparr>]\<rparr>)))"
      using d fresh by simp
    show "rpos (s\<lparr>rpos := rpos s + 32,
            table := table s @ [\<lparr>c_id = i, c_name = nm, c_items = b, items_dict = None\<rparr>]\<rparr>) = 32 * Suc n"
      using rn by simp
    show "inj_on (f(i := n)) (c_id ` set (table (s\<lparr>rpos := rpos s + 32,
            table := table s @ [\<lparr>c_id = i, c_name = nm, c_items = b, items_dict = None\<rparr>]\<rparr>)))"
      using inj nf fresh by (auto simp: inj_on_def)
    fix c assume "c \<in> set (table (s\<lparr>rpos := rpos s + 32,
            table := table s @ [\<lparr>c_id = i, c_name = nm, c_items = b, items_dict = None\<rparr>]\<rparr>))"
    then consider "c \<in> set (table s)" | "c = \<lparr>c_id = i, c_name = nm, c_items = b, items_dict = None\<rparr>"
      by auto
    then show "(f(i := n)) (c_id c) < Suc n \<and>
               salt_iv (c_items c) = draw (s\<lparr>rpos := rpos s + 32,
                 table := table s @ [\<lparr>c_id = i, c_name = nm, c_items = b, items_dict = None\<rparr>]\<rparr>)
                   ((f(i := n)) (c_id c))"
    proof cases
      case 1
      then have "c_id c \<noteq> i" using fresh by auto
      then show ?thesis using bspec[OF ok 1] by (simp add: draw_def)
    next
      case 2
      then show ?thesis using bn by (simp add: draw_def)
    qed
  qed
qed

lemma fresh_set:
  assumes inv: "salts_fresh s"
    and b: "salt_iv b = draw s (rpos s div 32)"
    and g: "\<forall>c. c_id (g c) = c_id c \<and> c_items (g c) = b"
  shows "salts_fresh (s\<lparr>rpos := rpos s + 32,
            table := map (\<lambda>c. if c_id c = i then g c else c) (table s)\<rparr>)"
proof -
  from inv obtain n f where d: "distinct (map c_id (table s))" and rn: "rpos s = 32 * n"
    and inj: "inj_on f (c_id ` set (table s))"
    and ok: "\<forall>c\<in>set (table s). f (c_id c) < n \<and> salt_iv (c_items c) = draw s (f (c_id c))"
    unfolding salts_fresh_def by blast
  define tbl' where "tbl' = map (\<lambda>c. if c_id c = i then g c else c) (table s)"
  have ids: "map c_id tbl' = map c_id (table s)"
    unfolding tbl'_def using g by (induction "table s") auto
  have idset: "c_id ` set tbl' = c_id ` set (table s)"
    using arg_cong[OF ids, of set] by simp
  have nf: "n \<notin> f ` c_id ` set (table s)" using ok by auto
  have bn: "salt_iv b = draw s n" using b rn by simp
  show ?thesis
    unfolding tbl'_def[symmetric]
  proof (rule salts_freshI[where n = "Suc n" and f = "f(i := n)"])
    show "distinct (map c_id (table (s\<lparr>rpos := rpos s + 32, table := tbl'\<rparr>)))"
      using d ids by simp
    show "rpos (s\<lparr>rpos := rpos s + 32, table := tbl'\<rparr>) = 32 * Suc n" using rn by simp
    show "inj_on (f(i := n)) (c_id ` set (table (s\<lparr>rpos := rpos s + 32, table := tbl'\<rparr>)))"
      using inj nf by (auto simp: inj_on_def idset)
    fix c' assume "c' \<in> set (table (s\<lparr>rpos := rpos s + 32, table := tbl'\<rparr>))"
    then obtain c where c: "c \<in> set (table s)" and c': "c' = (if c_id c = i then g c else c)"
      by (auto simp: tbl'_def)
    show "(f(i := n)) (c_id c') < Suc n \<and>
          salt_iv (c_items c') = draw (s\<lparr>rpos := rpos s + 32, table := tbl'\<rparr>) ((f(i := n)) (c_id c'))"
    proof (cases "c_id c = i")
      case True
      then show ?thesis using c' g bn by (simp add: draw_def)
    next
      case False
      then show ?thesis using c' bspec[OF ok c] by (simp add: draw_def)
    qed
  qed
qed

lemma fresh_filter:
  assumes inv: "salts_fresh s"
  shows "salts_fresh (s\<lparr>table := filter P (table s)\<rparr>)"
proof -
  from inv obtain n f where d: "distinct (map c_id (table s))" and rn: "rpos s = 32 * n"
    and inj: "inj_on f (c_id ` set (table s))"
    and ok: "\<forall>c\<in>set (table s). f (c_id c) < n \<and> salt_iv (c_items c) = draw s (f (c_id c))"
    unfolding salts_fresh_def by blast
  show ?thesis
  proof (rule salts_freshI[where n = n and f = f])
    show "distinct (map c_id (table (s\<lparr>table := filter P (table s)\<rparr>)))"
      using d by (simp add: distinct_map_filter)
    show "inj_on f (c_id ` set (table (s\<lparr>table := filter P (table s)\<rparr>)))"
      using inj by (auto simp: inj_on_def)
    fix c assume "c \<in> set (table (s\<lparr>table := filter P (table s)\<rparr>))"
    then have "c \<in> set (table s)" by simp
    then show "f (c_id c) < n \<and>
               salt_iv (c_items c) = draw (s\<lparr>table := filter P (table s)\<rparr>) (f (c_id c))"
      using ok by (simp add: draw_def)
  qed (use rn in simp)
qed

lemma fresh_blob:
  assumes "salts_fresh s"
  shows "salt_iv (fst (encrypt L s data)) = draw s (rpos s div 32)"
proof -
  from assms obtain n where "rpos s = 32 * n" unfolding salts_fresh_def by blast
  then show ?thesis using salt_iv_encrypt[of s n L data] by simp
qed

lemma fresh_empty: "table s = [] \<Longrightarrow> rpos s = 0 \<Longrightarrow> salts_fresh s"
  by (rule salts_freshI[where n = 0 and f = id]) simp_all

lemma fresh_open: "salts_fresh s \<Longrightarrow> salts_fresh (open_db s p)"
  by (erule fresh_frame) (simp_all add: open_db_def)

lemma fresh_create_pswd: "salts_fresh s \<Longrightarrow> salts_fresh (snd (create_pswd L s entered gensalt))"
  by (erule fresh_frame) (simp_all add: create_pswd_def)

lemma fresh_insert: "salts_fresh s \<Longrightarrow> salts_fresh (snd (insert_db L s n its))"
proof (cases "exists s n")
  case True
  assume "salts_fresh s"
  then show ?thesis by (simp add: insert_db_dup[OF True] fresh_drawn)
next
  case False
  assume inv: "salts_fresh s"
  show ?thesis
    using fresh_append[OF inv fresh_blob[OF inv, of L "items_val its"], of n]
    by (simp add: insert_db_fresh[OF False])
qed

lemma fresh_get: "salts_fresh s \<Longrightarrow> salts_fresh (snd (get L s n))"
  using get_frame[of L s n "fst (get L s n)" "snd (get L s n)"]
  by (auto intro: fresh_frame)

lemma fresh_get_all: "salts_fresh s \<Longrightarrow> salts_fresh (snd (get_all L s))"
  using decrypt_each_frame[of L s "table s" "fst (get_all L s)" "snd (get_all L s)"]
  by (auto intro: fresh_frame simp: get_all_def)

lemma fresh_resolve: "salts_fresh s \<Longrightarrow> resolve L s target = (r, s1) \<Longrightarrow> salts_fresh s1"
  using resolve_frame[of L s target r s1] by (auto intro: fresh_frame)

lemma fresh_update:
  assumes inv: "salts_fresh s"
  shows "salts_fresh (snd (update L s target new_name new_items))"
proof -
  obtain r s1 where res: "resolve L s target = (r, s1)" by (cases "resolve L s target")
  note inv1 = fresh_resolve[OF inv res]
  show ?thesis
  proof (cases r)
    case (Inl e)
    then show ?thesis using inv1 res by (simp add: update_error)
  next
    case (Inr oc)
    show ?thesis
    proof (cases oc)
      case None
      then show ?thesis using inv1 res Inr by (simp add: update_none)
    next
      case (Some c)
      have res': "resolve L s target = (Inr (Some c), s1)" using res Inr Some by simp
      define b where "b = fst (encrypt L s (items_val new_items))"
      have "b = fst (encrypt L s1 (items_val new_items))"
        unfolding b_def using resolve_frame[OF res] by (intro fst_encrypt_cong[symmetric]) simp_all
      then have bd: "salt_iv b = draw s1 (rpos s1 div 32)" using fresh_blob[OF inv1] by simp
      have "salts_fresh (s1\<lparr>rpos := rpos s1 + 32,
              table := map (\<lambda>r. if c_id r = c_id c then r\<lparr>c_name := new_name, c_items := b\<rparr> else r)
                         (table s1)\<rparr>)"
        by (rule fresh_set[OF inv1 bd]) simp
      then show ?thesis
        using fresh_drawn[OF inv1]
        by (simp add: update_some[OF res'] b_def[symmetric] set_name_items_def)
    qed
  qed
qed

lemma fresh_delete:
  assumes inv: "salts_fresh s"
  shows "salts_fresh (snd (delete L s target))"
proof -
  obtain r s1 where res: "resolve L s target = (r, s1)" by (cases "resolve L s target")
  note inv1 = fresh_resolve[OF inv res]
  show ?thesis
  proof (cases r)
    case (Inl e)
    then show ?thesis using inv1 res by (simp add: delete_def)
  next
    case (Inr oc)
    then show ?thesis using inv1 res fresh_filter[OF inv1]
      by (cases oc) (simp_all add: delete_def)
  qed
qed

lemma fresh_encrypt_each: "salts_fresh s \<Longrightarrow> salts_fresh (snd (encrypt_each L s cs))"
proof (induction cs arbitrary: s)
  case Nil
  then show ?case by simp
next
  case (Cons c cs)
  show ?case
  proof (cases "items_dict c")
    case None
    then show ?thesis using Cons.prems by (simp add: encrypt_each_stop)
  next
    case (Some d)
    have "salts_fresh (s\<lparr>rpos := rpos s + 32,
            table := map (\<lambda>r. if c_id r = c_id c then r\<lparr>c_items := fst (encrypt L s d)\<rparr> else r)
                       (table s)\<rparr>)"
      by (rule fresh_set[OF Cons.prems fresh_blob[OF Cons.prems]]) simp
    from Cons.IH[OF this] show ?thesis
      unfolding encrypt_each_step[OF Some] by (simp add: set_items_def)
  qed
qed

lemma fresh_change_pswd:
  assumes inv: "salts_fresh s"
  shows "salts_fresh (snd (change_pswd L s new_pswd))"
proof -
  obtain r s1 where ga: "get_all L s = (r, s1)" by (cases "get_all L s")
  have inv1: "salts_fresh s1" using fresh_get_all[OF inv, of L] ga by simp
  have inv2: "salts_fresh (s1\<lparr>pswd := new_pswd\<rparr>)"
    by (rule fresh_frame[OF inv1]) simp_all
  show ?thesis
    using inv1 fresh_encrypt_each[OF inv2]
    by (cases r) (simp_all add: change_pswd_def ga)
qed

lemma reachable_fresh: "reachable L s \<Longrightarrow> salts_fresh s"
proof (induction rule: reachable.induct)
  case (empty_vault s)
  then show ?case by (rule fresh_empty)
qed (simp_all add: fresh_open fresh_insert fresh_get fresh_get_all fresh_update fresh_delete
      fresh_change_pswd fresh_create_pswd)

lemma fresh_distinct:
  assumes inv: "salts_fresh s"
    and dr: "distinct (map (draw s) [0 ..< rpos s div 32])"
  shows "distinct (map (\<lambda>c. salt_iv (c_items c)) (table s))"
proof -
  from inv obtain n f where d: "distinct (map c_id (table s))" and rn: "rpos s = 32 * n"
    and inj: "inj_on f (c_id ` set (table s))"
    and ok: "\<forall>c\<in>set (table s). f (c_id c) < n \<and> salt_iv (c_items c) = draw s (f (c_id c))"
    unfolding salts_fresh_def by blast
  have injd: "inj_on (draw s) {0 ..< n}" using dr rn by (simp add: distinct_map)
  have eq: "map (\<lambda>c. salt_iv (c_items c)) (table s) = map (draw s \<circ> f) (map c_id (table s))"
    using ok by simp
  have "distinct (map f (map c_id (table s)))"
    using d inj by (simp add: distinct_map comp_inj_on)
  moreover have "set (map f (map c_id (table s))) \<subseteq> {0 ..< n}" using ok by auto
  ultimately have "distinct (map (draw s) (map f (map c_id (table s))))"
    using injd by (metis distinct_map inj_on_subset)
  then show ?thesis unfolding eq by (simp add: comp_assoc)
qed

lemma salt_iv_encrypt_any:
  "salt_iv (fst (encrypt L s data)) = map (rng s) [rpos s ..< rpos s + 32]"
proof -
  have "[rpos s ..< (rpos s + 16) + 16] = [rpos s ..< rpos s + 16] @ [rpos s + 16 ..< (rpos s + 16) + 16]"
    by (rule upt_add_eq_append) simp
  moreover have "(rpos s + 16) + 16 = rpos s + 32" by simp
  ultimately have u: "[rpos s ..< rpos s + 32] = [rpos s ..< rpos s + 16] @ [rpos s + 16 ..< rpos s + 32]"
    by (simp only:)
  show ?thesis unfolding salt_iv_def u by (simp add: encrypt_eq)
qed

lemma reachable_two: "reachable demo_lib two_vault"
  unfolding two_vault_def github_vault_def
  by (intro reachable.after_insert reachable.empty_vault) (simp_all add: demo_vault_def)

lemma two_vault_eq:
  "two_vault = github_vault\<lparr>rpos := rpos github_vault + 32,
      table := table github_vault @ [\<lparr>c_id = next_id (table github_vault), c_name = ''GitLab'',
                 c_items = fst (encrypt demo_lib github_vault (items_val demo_items)),
                 items_dict = None\<rparr>]\<rparr>"
  by (simp add: two_vault_def insert_db_fresh[OF not_exists_gitlab])

lemma rpos_two: "rpos two_vault = 64"
  by (simp add: two_vault_eq github_vault_eq demo_vault_def)

lemma rng_two: "rng two_vault = (\<lambda>i. of_nat (7 * i + 3))"
  by (simp add: two_vault_eq github_vault_eq demo_vault_def)

lemma draws_two: "distinct (map (draw two_vault) [0 ..< rpos two_vault div 32])"
proof -
  have "[0 ..< rpos two_vault div 32] = [0, 1]" by (simp add: rpos_two upt_rec)
  moreover have "draw two_vault 0 ! 0 \<noteq> draw two_vault 1 ! 0"
    by (simp add: draw_def rng_two)
  ultimately show ?thesis by auto
qed

lemma count_two: "count two_vault = 2"
  by (simp add: two_vault_eq count_def table_github)

text \<open>
  Claim C6. Every call of \<^verbatim>\<open>_encrypt\<close> reads the next thirty-two bytes of the
  generator, which become the salt and the IV its blob starts with, and moves the
  generator past them. Two encryptions of the same value (under any passwords, equal or
  not) whose thirty-two random bytes differ return different blobs. In every state
  reachable from an empty vault, if the pairs the generator has yielded so far are
  pairwise different, no two stored payloads start with the same salt/IV pair. That the
  generator does not repeat a pair is the hypothesis; its probability is not modelled.
\<close>

theorem C6_fresh_salt_iv:
  "salt_iv (fst (encrypt L s data)) = map (rng s) [rpos s ..< rpos s + 32] \<and>
   rpos (snd (encrypt L s data)) = rpos s + 32 \<and>
   (map (rng s1) [rpos s1 ..< rpos s1 + 32] \<noteq> map (rng s2) [rpos s2 ..< rpos s2 + 32] \<longrightarrow>
      fst (encrypt L s1 data) \<noteq> fst (encrypt L s2 data)) \<and>
   (reachable L s \<longrightarrow> distinct (map (draw s) [0 ..< rpos s div 32]) \<longrightarrow>
      distinct (map (\<lambda>c. salt_iv (c_items c)) (table s)))"
proof (intro conjI impI)
  show "salt_iv (fst (encrypt L s data)) = map (rng s) [rpos s ..< rpos s + 32]"
    by (rule salt_iv_encrypt_any)
  show "rpos (snd (encrypt L s data)) = rpos s + 32" by (simp add: snd_encrypt)
next
  assume ne: "map (rng s1) [rpos s1 ..< rpos s1 + 32] \<noteq> map (rng s2) [rpos s2 ..< rpos s2 + 32]"
  show "fst (encrypt L s1 data) \<noteq> fst (encrypt L s2 data)"
  proof
    assume "fst (encrypt L s1 data) = fst (encrypt L s2 data)"
    then have "salt_iv (fst (encrypt L s1 data)) = salt_iv (fst (encrypt L s2 data))" by simp
    then show False using ne by (simp add: salt_iv_encrypt_any)
  qed
next
  assume "reachable L s" and "distinct (map (draw s) [0 ..< rpos s div 32])"
  then show "distinct (map (\<lambda>c. salt_iv (c_items c)) (table s))"
    by (intro fresh_distinct reachable_fresh)
qed

lemma draws_differ:
  "map (rng demo_vault) [rpos demo_vault ..< rpos demo_vault + 32]
     \<noteq> map (rng github_vault) [rpos github_vault ..< rpos github_vault + 32]"
proof
  assume "map (rng demo_vault) [rpos demo_vault ..< rpos demo_vault + 32]
            = map (rng github_vault) [rpos github_vault ..< rpos github_vault + 32]"
  then have "map (rng demo_vault) [rpos demo_vault ..< rpos demo_vault + 32] ! 0
            = map (rng github_vault) [rpos github_vault ..< rpos github_vault + 32] ! 0"
    by simp
  then show False by (simp add: github_vault_eq demo_vault_def)
qed

theorem C6_fresh_salt_iv_witness:
  "reachable demo_lib two_vault \<and> count two_vault = 2 \<and>
   distinct (map (draw two_vault) [0 ..< rpos two_vault div 32]) \<and>
   distinct (map (\<lambda>c. salt_iv (c_items c)) (table two_vault)) \<and>
   pswd github_vault = pswd demo_vault \<and>
   fst (encrypt demo_lib demo_vault (items_val demo_items))
     \<noteq> fst (encrypt demo_lib github_vault (items_val demo_items))"
  using C6_fresh_salt_iv[of demo_lib two_vault "items_val demo_items" demo_vault github_vault]
    reachable_two count_two draws_two draws_differ
  by (simp add: github_vault_eq)

end
